theory Spec2Isabelle
  imports Main "HOL-Library.Word"
begin

section \<open>The data of linked_lists.c\<close>

text \<open>
  \<^verbatim>\<open>VALUE\<close> is the host's handle type, an unsigned machine word (64 bits on LP64).
  A C pointer is an address or \<^verbatim>\<open>NULL\<close>: \<open>addr option\<close>, with \<open>None\<close> for \<^verbatim>\<open>NULL\<close>.
\<close>

type_synonym VALUE = "64 word"
type_synonym addr = nat

text \<open>
  \<^verbatim>\<open>struct linkedListNode { struct linkedListNode *next; VALUE value; }\<close> and
  \<^verbatim>\<open>struct linkedList { linkedListNodeType *head; }\<close>. The fields \<^verbatim>\<open>next\<close> and
  \<^verbatim>\<open>value\<close> are named \<open>node_next\<close> and \<open>node_value\<close> here.
\<close>

record linkedListNode =
  node_next :: "addr option"
  node_value :: VALUE

record linkedList =
  head :: "addr option"

text \<open>
  The object that \<^verbatim>\<open>TypedData_Wrap_Struct(klass, &linked_list_data_type, ptr)\<close> makes:
  it records its class and the wrapped pointer, which \<^verbatim>\<open>TypedData_Get_Struct\<close> reads back.
\<close>

record typed_data =
  klass :: VALUE
  data :: addr

text \<open>
  The store. Blocks obtained from \<^verbatim>\<open>malloc\<close> are kept by type: the live
  \<^verbatim>\<open>linkedListType\<close> blocks and the live \<^verbatim>\<open>linkedListNodeType\<close> blocks, each a map from
  addresses; \<^verbatim>\<open>free\<close> removes a block from its map. \<open>objects\<close> holds the host's wrapper
  objects.
\<close>

record heap =
  objects :: "VALUE \<rightharpoonup> typed_data"
  lists :: "addr \<rightharpoonup> linkedList"
  nodes :: "addr \<rightharpoonup> linkedListNode"

text \<open>
  What the C code does on a bad pointer is a fault of the model: a \<^verbatim>\<open>NULL\<close> that is
  dereferenced, an address that is not a live block, an object that is not a wrapped
  list (\<^verbatim>\<open>TypedData_Get_Struct\<close> raises).
\<close>

datatype fault = NullPointer | InvalidPointer | TypeError

text \<open>
  The host: everything \<^verbatim>\<open>linked_lists.c\<close> calls that is not defined in it.
  \<^item> \<open>malloc_list\<close>, \<open>malloc_node\<close>: \<^verbatim>\<open>malloc(sizeof(linkedListType))\<close> and
    \<^verbatim>\<open>malloc(sizeof(linkedListNodeType))\<close> in a given store: \<open>None\<close> when the allocation
    fails (\<^verbatim>\<open>NULL\<close>), else the address of the block and its uninitialised content;
  \<^item> \<open>new_object\<close>: the handle of the object \<^verbatim>\<open>TypedData_Wrap_Struct\<close> creates;
  \<^item> \<open>Qnil\<close>: the macro of \<^verbatim>\<open>ruby.h\<close>, the handle of \<^verbatim>\<open>nil\<close>;
  \<^item> \<open>rb_inspect\<close>: the rendering of a value, taken as a function of the handle;
  \<^item> \<open>rb_class_name\<close>: the name of a class;
  \<^item> \<open>sizeof_linkedListType\<close>: \<^verbatim>\<open>sizeof(linkedListType)\<close>.
\<close>

record host =
  malloc_list :: "heap \<Rightarrow> (addr \<times> linkedList) option"
  malloc_node :: "heap \<Rightarrow> (addr \<times> linkedListNode) option"
  new_object :: "heap \<Rightarrow> VALUE"
  Qnil :: VALUE
  rb_inspect :: "VALUE \<Rightarrow> string"
  rb_class_name :: "VALUE \<Rightarrow> string"
  sizeof_linkedListType :: nat

section \<open>The functions of linked_lists.c\<close>

text \<open>
  \<^verbatim>\<open>TypedData_Get_Struct(self, linkedListType, &linked_list_data_type, linked_list)\<close>:
  the pointer wrapped by \<open>self\<close>.
\<close>

definition get_struct :: "heap \<Rightarrow> VALUE \<Rightarrow> fault + addr" where
  "get_struct h self =
     (case objects h self of None \<Rightarrow> Inl TypeError | Some ob \<Rightarrow> Inr (data ob))"

text \<open>
  \<^verbatim>\<open>linked_list_mark\<close>. The calls of \<^verbatim>\<open>rb_gc_mark\<close> are the function's only effect:
  the model returns their arguments, in the order of the calls. The loop
  \<^verbatim>\<open>while(node != NULL) { if(node->value) rb_gc_mark(node->value); node = node->next; }\<close>
  need not end on a cyclic store, so it is a partial function: \<open>None\<close> is a loop that
  runs forever.
\<close>

partial_function (option) mark_loop ::
  "heap \<Rightarrow> addr option \<Rightarrow> VALUE list \<Rightarrow> (fault + VALUE list) option" where
  "mark_loop h node marked =
     (case node of
        None \<Rightarrow> Some (Inr marked)
      | Some a \<Rightarrow>
          (case nodes h a of
             None \<Rightarrow> Some (Inl InvalidPointer)
           | Some n \<Rightarrow>
               mark_loop h (node_next n)
                 (if node_value n \<noteq> 0 then marked @ [node_value n] else marked)))"

definition linked_list_mark :: "heap \<Rightarrow> addr \<Rightarrow> (fault + VALUE list) option" where
  "linked_list_mark h ptr =
     (case lists h ptr of
        None \<Rightarrow> Some (Inl InvalidPointer)
      | Some linked_list \<Rightarrow> mark_loop h (head linked_list) [])"

text \<open>\<^verbatim>\<open>linked_list_free\<close>: \<^verbatim>\<open>free(ptr)\<close>, and nothing else.\<close>

definition linked_list_free :: "heap \<Rightarrow> addr \<Rightarrow> fault + heap" where
  "linked_list_free h ptr =
     (case lists h ptr of
        None \<Rightarrow> Inl InvalidPointer
      | Some linked_list \<Rightarrow> Inr (h\<lparr>lists := (lists h)(ptr := None)\<rparr>))"

text \<open>\<^verbatim>\<open>linked_list_memsize\<close>: \<^verbatim>\<open>return sizeof(linkedListType);\<close>, \<open>ptr\<close> is not read.\<close>

definition linked_list_memsize :: "host \<Rightarrow> heap \<Rightarrow> addr \<Rightarrow> nat" where
  "linked_list_memsize H h ptr = sizeof_linkedListType H"

text \<open>
  \<^verbatim>\<open>rb_linked_list_allocate\<close>: \<^verbatim>\<open>malloc\<close>, wrap the block in a new object of class
  \<open>klass\<close>, set \<^verbatim>\<open>head\<close> to \<^verbatim>\<open>NULL\<close>, return the object. The result of \<^verbatim>\<open>malloc\<close> is not
  checked: on \<^verbatim>\<open>NULL\<close> the assignment to \<^verbatim>\<open>linked_list->head\<close> faults.
\<close>

definition rb_linked_list_allocate :: "host \<Rightarrow> VALUE \<Rightarrow> heap \<Rightarrow> fault + (VALUE \<times> heap)" where
  "rb_linked_list_allocate H klass' h =
     (case malloc_list H h of
        None \<Rightarrow> Inl NullPointer
      | Some (linked_list, junk) \<Rightarrow>
          (let h1 = h\<lparr>lists := (lists h)(linked_list \<mapsto> junk)\<rparr>;
               obj = new_object H h1;
               h2 = h1\<lparr>objects := (objects h1)(obj \<mapsto> \<lparr>klass = klass', data = linked_list\<rparr>)\<rparr>
           in (case lists h2 linked_list of
                 None \<Rightarrow> Inl InvalidPointer
               | Some l \<Rightarrow>
                   Inr (obj, h2\<lparr>lists := (lists h2)(linked_list \<mapsto> l\<lparr>head := None\<rparr>)\<rparr>))))"

text \<open>
  \<^verbatim>\<open>new_c_node\<close>: \<^verbatim>\<open>malloc\<close>, then \<^verbatim>\<open>node->next = NULL\<close> (a fault when \<^verbatim>\<open>malloc\<close> gave
  \<^verbatim>\<open>NULL\<close>); \<^verbatim>\<open>value\<close> keeps the block's uninitialised content.
\<close>

definition new_c_node :: "host \<Rightarrow> heap \<Rightarrow> fault + (addr \<times> heap)" where
  "new_c_node H h =
     (case malloc_node H h of
        None \<Rightarrow> Inl NullPointer
      | Some (node, junk) \<Rightarrow>
          Inr (node, h\<lparr>nodes := (nodes h)(node \<mapsto> junk\<lparr>node_next := None\<rparr>)\<rparr>))"

text \<open>\<^verbatim>\<open>new_c_node_value\<close>: \<^verbatim>\<open>new_c_node()\<close>, then \<^verbatim>\<open>node->value = value\<close>.\<close>

definition new_c_node_value :: "host \<Rightarrow> VALUE \<Rightarrow> heap \<Rightarrow> fault + (addr \<times> heap)" where
  "new_c_node_value H v h =
     (case new_c_node H h of
        Inl f \<Rightarrow> Inl f
      | Inr (node, h1) \<Rightarrow>
          (case nodes h1 node of
             None \<Rightarrow> Inl InvalidPointer
           | Some n \<Rightarrow> Inr (node, h1\<lparr>nodes := (nodes h1)(node \<mapsto> n\<lparr>node_value := v\<rparr>)\<rparr>)))"

text \<open>
  \<^verbatim>\<open>rb_linked_list_append\<close>. \<open>append_loop\<close> is the tail scan
  \<^verbatim>\<open>while(node->next != NULL) { node = node->next; }\<close>: it returns the last node.
\<close>

partial_function (option) append_loop :: "heap \<Rightarrow> addr \<Rightarrow> (fault + addr) option" where
  "append_loop h node =
     (case nodes h node of
        None \<Rightarrow> Some (Inl InvalidPointer)
      | Some n \<Rightarrow>
          (case node_next n of
             None \<Rightarrow> Some (Inr node)
           | Some nx \<Rightarrow> append_loop h nx))"

definition rb_linked_list_append ::
  "host \<Rightarrow> VALUE \<Rightarrow> VALUE \<Rightarrow> heap \<Rightarrow> (fault + (VALUE \<times> heap)) option" where
  "rb_linked_list_append H self v h =
     (case get_struct h self of
        Inl f \<Rightarrow> Some (Inl f)
      | Inr linked_list \<Rightarrow>
          (case lists h linked_list of
             None \<Rightarrow> Some (Inl InvalidPointer)
           | Some l \<Rightarrow>
               (case head l of
                  None \<Rightarrow>
                    (case new_c_node_value H v h of
                       Inl f \<Rightarrow> Some (Inl f)
                     | Inr (new, h1) \<Rightarrow>
                         (case lists h1 linked_list of
                            None \<Rightarrow> Some (Inl InvalidPointer)
                          | Some l1 \<Rightarrow>
                              Some (Inr (self,
                                h1\<lparr>lists := (lists h1)(linked_list \<mapsto> l1\<lparr>head := Some new\<rparr>)\<rparr>))))
                | Some node \<Rightarrow>
                    (case append_loop h node of
                       None \<Rightarrow> None
                     | Some (Inl f) \<Rightarrow> Some (Inl f)
                     | Some (Inr last_node) \<Rightarrow>
                         (case new_c_node_value H v h of
                            Inl f \<Rightarrow> Some (Inl f)
                          | Inr (new, h1) \<Rightarrow>
                              (case nodes h1 last_node of
                                 None \<Rightarrow> Some (Inl InvalidPointer)
                               | Some n \<Rightarrow>
                                   Some (Inr (self,
                                     h1\<lparr>nodes := (nodes h1)(last_node \<mapsto>
                                            n\<lparr>node_next := Some new\<rparr>)\<rparr>))))))))"

text \<open>
  \<^verbatim>\<open>rb_linked_list_prepend\<close>: a new node, \<^verbatim>\<open>new_node->next = linked_list->head\<close>,
  \<^verbatim>\<open>linked_list->head = new_node\<close>.
\<close>

definition rb_linked_list_prepend ::
  "host \<Rightarrow> VALUE \<Rightarrow> VALUE \<Rightarrow> heap \<Rightarrow> fault + (VALUE \<times> heap)" where
  "rb_linked_list_prepend H self v h =
     (case get_struct h self of
        Inl f \<Rightarrow> Inl f
      | Inr linked_list \<Rightarrow>
          (case new_c_node_value H v h of
             Inl f \<Rightarrow> Inl f
           | Inr (new_node, h1) \<Rightarrow>
               (case lists h1 linked_list of
                  None \<Rightarrow> Inl InvalidPointer
                | Some l \<Rightarrow>
                    (case nodes h1 new_node of
                       None \<Rightarrow> Inl InvalidPointer
                     | Some n \<Rightarrow>
                         (let h2 = h1\<lparr>nodes := (nodes h1)(new_node \<mapsto> n\<lparr>node_next := head l\<rparr>)\<rparr>
                          in (case lists h2 linked_list of
                                None \<Rightarrow> Inl InvalidPointer
                              | Some l2 \<Rightarrow>
                                  Inr (self,
                                    h2\<lparr>lists := (lists h2)(linked_list \<mapsto>
                                           l2\<lparr>head := Some new_node\<rparr>)\<rparr>)))))))"

text \<open>
  \<^verbatim>\<open>rb_linked_list_shift\<close>: \<^verbatim>\<open>Qnil\<close> when \<^verbatim>\<open>head\<close> is \<^verbatim>\<open>NULL\<close>; else read the head's
  \<^verbatim>\<open>next\<close> and \<^verbatim>\<open>value\<close>, \<^verbatim>\<open>free\<close> the head node, store \<^verbatim>\<open>next\<close> in \<^verbatim>\<open>head\<close> and return
  the value.
\<close>

definition rb_linked_list_shift :: "host \<Rightarrow> VALUE \<Rightarrow> heap \<Rightarrow> fault + (VALUE \<times> heap)" where
  "rb_linked_list_shift H self h =
     (case get_struct h self of
        Inl f \<Rightarrow> Inl f
      | Inr linked_list \<Rightarrow>
          (case lists h linked_list of
             None \<Rightarrow> Inl InvalidPointer
           | Some l \<Rightarrow>
               (case head l of
                  None \<Rightarrow> Inr (Qnil H, h)
                | Some hd_node \<Rightarrow>
                    (case nodes h hd_node of
                       None \<Rightarrow> Inl InvalidPointer
                     | Some n \<Rightarrow>
                         (let new_head = node_next n;
                              removed_value = node_value n;
                              h1 = h\<lparr>nodes := (nodes h)(hd_node := None)\<rparr>
                          in (case lists h1 linked_list of
                                None \<Rightarrow> Inl InvalidPointer
                              | Some l1 \<Rightarrow>
                                  Inr (removed_value,
                                    h1\<lparr>lists := (lists h1)(linked_list \<mapsto>
                                           l1\<lparr>head := new_head\<rparr>)\<rparr>)))))))"

text \<open>
  \<^verbatim>\<open>rb_linked_list_inspect\<close>. The buffer starts as \<^verbatim>\<open>"#<"\<close>, the class name of
  \<open>self\<close> and \<^verbatim>\<open>" {"\<close>; the loop appends \<^verbatim>\<open>", "\<close> when \<^verbatim>\<open>i > 0\<close> and then the
  rendering of the node's value; \<^verbatim>\<open>"}>"\<close> closes it. No statement of the function
  writes to a list or a node, so the store it leaves is the one it was given; the
  model returns it with the string. The counter \<^verbatim>\<open>long i\<close> counts the nodes visited: it
  is an \<open>int\<close> here (a chain of \<open>2^63\<close> nodes does not fit in memory).
\<close>

partial_function (option) inspect_loop ::
  "host \<Rightarrow> heap \<Rightarrow> addr option \<Rightarrow> string \<Rightarrow> int \<Rightarrow> (fault + string) option" where
  "inspect_loop H h node str i =
     (case node of
        None \<Rightarrow> Some (Inr str)
      | Some a \<Rightarrow>
          (case nodes h a of
             None \<Rightarrow> Some (Inl InvalidPointer)
           | Some n \<Rightarrow>
               (let s = rb_inspect H (node_value n);
                    str1 = (if i > 0 then str @ '', '' else str);
                    str2 = str1 @ s
                in inspect_loop H h (node_next n) str2 (i + 1))))"

definition rb_linked_list_inspect ::
  "host \<Rightarrow> VALUE \<Rightarrow> heap \<Rightarrow> (fault + (string \<times> heap)) option" where
  "rb_linked_list_inspect H self h =
     (case get_struct h self of
        Inl f \<Rightarrow> Some (Inl f)
      | Inr linked_list \<Rightarrow>
          (case lists h linked_list of
             None \<Rightarrow> Some (Inl InvalidPointer)
           | Some l \<Rightarrow>
               (case objects h self of
                  None \<Rightarrow> Some (Inl TypeError)
                | Some ob \<Rightarrow>
                    (let str = ''#<'' @ rb_class_name H (klass ob) @ '' {''
                     in (case inspect_loop H h (head l) str 0 of
                           None \<Rightarrow> None
                         | Some (Inl f) \<Rightarrow> Some (Inl f)
                         | Some (Inr str') \<Rightarrow> Some (Inr (str' @ ''}>'', h)))))))"

section \<open>Calling the methods in sequence\<close>

text \<open>
  A call of one of the three mutating methods on a list, and a run of such calls on
  the same list: the run collects the values returned and stops at the first fault.
\<close>

datatype op = Append VALUE | Prepend VALUE | Shift

fun run_op :: "host \<Rightarrow> VALUE \<Rightarrow> op \<Rightarrow> heap \<Rightarrow> (fault + (VALUE \<times> heap)) option" where
  "run_op H self (Append v) h = rb_linked_list_append H self v h"
| "run_op H self (Prepend v) h = Some (rb_linked_list_prepend H self v h)"
| "run_op H self Shift h = Some (rb_linked_list_shift H self h)"

fun run_ops ::
  "host \<Rightarrow> VALUE \<Rightarrow> op list \<Rightarrow> heap \<Rightarrow> (fault + (VALUE list \<times> heap)) option" where
  "run_ops H self [] h = Some (Inr ([], h))"
| "run_ops H self (x # ops) h =
     (case run_op H self x h of
        None \<Rightarrow> None
      | Some (Inl f) \<Rightarrow> Some (Inl f)
      | Some (Inr (r, h1)) \<Rightarrow>
          (case run_ops H self ops h1 of
             None \<Rightarrow> None
           | Some (Inl f) \<Rightarrow> Some (Inl f)
           | Some (Inr (rs, h2)) \<Rightarrow> Some (Inr (r # rs, h2))))"

text \<open>
  \<^verbatim>\<open>list.m1(a).m2(b)\<close> calls the second method on what the first returned;
  \<^verbatim>\<open>list.m1(a); list.m2(b)\<close> calls it on the list.
\<close>

definition chained :: "host \<Rightarrow> VALUE \<Rightarrow> op \<Rightarrow> op \<Rightarrow> heap \<Rightarrow> (fault + (VALUE \<times> heap)) option" where
  "chained H self x y h =
     (case run_op H self x h of
        None \<Rightarrow> None
      | Some (Inl f) \<Rightarrow> Some (Inl f)
      | Some (Inr (r, h1)) \<Rightarrow> run_op H r y h1)"

definition sequential :: "host \<Rightarrow> VALUE \<Rightarrow> op \<Rightarrow> op \<Rightarrow> heap \<Rightarrow> (fault + (VALUE \<times> heap)) option" where
  "sequential H self x y h =
     (case run_op H self x h of
        None \<Rightarrow> None
      | Some (Inl f) \<Rightarrow> Some (Inl f)
      | Some (Inr (r, h1)) \<Rightarrow> run_op H self y h1)"

fun is_insert :: "op \<Rightarrow> bool" where
  "is_insert (Append v) = True"
| "is_insert (Prepend v) = True"
| "is_insert Shift = False"

section \<open>What a list is in the store\<close>

text \<open>
  \<open>chain N p xs\<close>: following \<^verbatim>\<open>next\<close> from the pointer \<open>p\<close> in the node blocks \<open>N\<close> visits
  the nodes listed in \<open>xs\<close>, each with its address and its value, and then reaches
  \<^verbatim>\<open>NULL\<close>.
\<close>

fun chain :: "(addr \<rightharpoonup> linkedListNode) \<Rightarrow> addr option \<Rightarrow> (addr \<times> VALUE) list \<Rightarrow> bool" where
  "chain N p [] = (p = None)"
| "chain N p ((a, v) # xs) =
     (p = Some a \<and>
      (case N a of
         None \<Rightarrow> False
       | Some n \<Rightarrow> node_value n = v \<and> chain N (node_next n) xs))"

text \<open>\<open>list_at h self xs\<close>: \<open>self\<close> wraps a live list block whose \<^verbatim>\<open>head\<close> starts the chain \<open>xs\<close>.\<close>

definition list_at :: "heap \<Rightarrow> VALUE \<Rightarrow> (addr \<times> VALUE) list \<Rightarrow> bool" where
  "list_at h self xs =
     (case objects h self of
        None \<Rightarrow> False
      | Some ob \<Rightarrow>
          (case lists h (data ob) of
             None \<Rightarrow> False
           | Some l \<Rightarrow> chain (nodes h) (head l) xs))"

text \<open>
  A store holds finitely many blocks, and \<^verbatim>\<open>malloc\<close> in such a store succeeds and
  returns a block that is not live. (The source checks no result of \<^verbatim>\<open>malloc\<close>.)
\<close>

definition heap_ok :: "heap \<Rightarrow> bool" where
  "heap_ok h = (finite (dom (lists h)) \<and> finite (dom (nodes h)))"

definition malloc_ok :: "host \<Rightarrow> bool" where
  "malloc_ok H =
     ((\<forall>h. finite (dom (lists h)) \<longrightarrow>
          (case malloc_list H h of None \<Rightarrow> False | Some (a, junk) \<Rightarrow> a \<notin> dom (lists h))) \<and>
      (\<forall>h. finite (dom (nodes h)) \<longrightarrow>
          (case malloc_node H h of None \<Rightarrow> False | Some (a, junk) \<Rightarrow> a \<notin> dom (nodes h))))"

section \<open>The list as a sequence of values\<close>

text \<open>
  The values a list logically stores, as the specification describes the methods:
  \<open>append\<close> adds at the tail, \<open>prepend\<close> at the front, \<open>shift\<close> removes the front
  value when there is one. \<open>returned\<close> is what the call returns: the list itself
  from \<open>append\<close> and \<open>prepend\<close>, the front value or the "none" sentinel from \<open>shift\<close>.
\<close>

fun stored_after :: "VALUE list \<Rightarrow> op \<Rightarrow> VALUE list" where
  "stored_after vs (Append v) = vs @ [v]"
| "stored_after vs (Prepend v) = v # vs"
| "stored_after vs Shift = tl vs"

fun returned :: "host \<Rightarrow> VALUE \<Rightarrow> VALUE list \<Rightarrow> op \<Rightarrow> VALUE" where
  "returned H self vs (Append v) = self"
| "returned H self vs (Prepend v) = self"
| "returned H self vs Shift = (case vs of [] \<Rightarrow> Qnil H | v # _ \<Rightarrow> v)"

fun returned_all :: "host \<Rightarrow> VALUE \<Rightarrow> VALUE list \<Rightarrow> op list \<Rightarrow> VALUE list" where
  "returned_all H self vs [] = []"
| "returned_all H self vs (x # ops) =
     returned H self vs x # returned_all H self (stored_after vs x) ops"

definition stored :: "op list \<Rightarrow> VALUE list" where
  "stored ops = foldl stored_after [] ops"

text \<open>The rendering the specification gives for \<open>inspect\<close>: the items, comma-separated.\<close>

fun comma_separated :: "string list \<Rightarrow> string" where
  "comma_separated [] = []"
| "comma_separated [s] = s"
| "comma_separated (s # t # ss) = s @ '', '' @ comma_separated (t # ss)"

section \<open>A host to run the code on\<close>

text \<open>
  A concrete host. \<^verbatim>\<open>malloc\<close> returns the address after the highest live one, with
  junk in the block; objects get the handles \<open>0x1000\<close>, \<open>0x1028\<close>, ...; \<open>Qnil\<close> is \<open>8\<close>
  as in the \<^verbatim>\<open>ruby.h\<close> of 64-bit MRI up to 3.1 (it is \<open>4\<close> from 3.2 on; \<^verbatim>\<open>Qfalse\<close> is \<open>0\<close>
  and \<^verbatim>\<open>Qnil\<close> is not \<open>0\<close> in every version); an Integer \<open>n\<close> is the handle \<open>2 * n + 1\<close>
  (\<^verbatim>\<open>INT2FIX\<close>), and \<open>fixnum_inspect\<close> renders the handles of \<open>0\<close> to \<open>9\<close>.
\<close>

definition fresh_addr :: "addr set \<Rightarrow> addr" where
  "fresh_addr A = (if A = {} then 0 else Suc (Max A))"

definition INT2FIX :: "nat \<Rightarrow> VALUE" where
  "INT2FIX n = 2 * of_nat n + 1"

definition fixnum_inspect :: "VALUE \<Rightarrow> string" where
  "fixnum_inspect v =
     (if v = 8 then ''nil''
      else if odd (unat v) \<and> unat v < 20 then [''0123456789'' ! (unat v div 2)]
      else ''#<Object>'')"

definition mri :: host where
  "mri = \<lparr>malloc_list = (\<lambda>h. Some (fresh_addr (dom (lists h)), \<lparr>head = Some 7\<rparr>)),
          malloc_node = (\<lambda>h. Some (fresh_addr (dom (nodes h)),
                                   \<lparr>node_next = Some 7, node_value = 99\<rparr>)),
          new_object = (\<lambda>h. 0x1000 + 40 * of_nat (card (dom (objects h)))),
          Qnil = 8,
          rb_inspect = fixnum_inspect,
          rb_class_name = (\<lambda>k. ''LinkedList''),
          sizeof_linkedListType = 8\<rparr>"

definition empty_heap :: heap where
  "empty_heap = \<lparr>objects = Map.empty, lists = Map.empty, nodes = Map.empty\<rparr>"

text \<open>
  Two stores the code builds on \<open>mri\<close> from the empty store: after \<open>allocate\<close>, and
  after \<open>allocate\<close> and one \<open>append\<close> of \<open>v\<close>.
\<close>

definition heap_empty_list :: heap where
  "heap_empty_list =
     \<lparr>objects = [0x1000 \<mapsto> \<lparr>klass = 0, data = 0\<rparr>],
      lists = [0 \<mapsto> \<lparr>head = None\<rparr>],
      nodes = Map.empty\<rparr>"

definition heap_one_node :: "VALUE \<Rightarrow> heap" where
  "heap_one_node v =
     \<lparr>objects = [0x1000 \<mapsto> \<lparr>klass = 0, data = 0\<rparr>],
      lists = [0 \<mapsto> \<lparr>head = Some 0\<rparr>],
      nodes = [0 \<mapsto> \<lparr>node_next = None, node_value = v\<rparr>]\<rparr>"

section \<open>Reachable nodes\<close>

text \<open>\<open>reach N p a\<close>: the node at \<open>a\<close> is met when following \<^verbatim>\<open>next\<close> from \<open>p\<close>.\<close>

inductive reach :: "(addr \<rightharpoonup> linkedListNode) \<Rightarrow> addr option \<Rightarrow> addr \<Rightarrow> bool" where
  reach_here: "reach N (Some a) a"
| reach_next: "N a = Some n \<Longrightarrow> reach N (node_next n) b \<Longrightarrow> reach N (Some a) b"

section \<open>Chains\<close>

lemma chain_Cons:
  "chain N p ((a, v) # xs) =
     (\<exists>n. p = Some a \<and> N a = Some n \<and> node_value n = v \<and> chain N (node_next n) xs)"
  by (simp split: option.splits)

declare chain.simps(2) [simp del]

lemma chain_None [simp]: "chain N None xs = (xs = [])"
  by (cases xs) (auto simp: chain_Cons)

lemma chain_live: "chain N p xs \<Longrightarrow> fst ` set xs \<subseteq> dom N"
proof (induction xs arbitrary: p)
  case Nil
  then show ?case by simp
next
  case (Cons x xs)
  obtain a v where x: "x = (a, v)" by (cases x)
  from Cons.prems obtain n where n: "N a = Some n" "chain N (node_next n) xs"
    by (auto simp: x chain_Cons)
  from n(2) have "fst ` set xs \<subseteq> dom N" by (rule Cons.IH)
  with n(1) show ?case by (auto simp: x)
qed

lemma chain_unique: "chain N p xs \<Longrightarrow> chain N p ys \<Longrightarrow> xs = ys"
proof (induction xs arbitrary: p ys)
  case Nil
  then show ?case by simp
next
  case (Cons x xs)
  obtain a v where x: "x = (a, v)" by (cases x)
  from Cons.prems(1) obtain n where n: "p = Some a" "N a = Some n"
    "node_value n = v" "chain N (node_next n) xs"
    by (auto simp: x chain_Cons)
  from Cons.prems(2) n(1) obtain y ys' where ys: "ys = y # ys'" by (cases ys) auto
  obtain b w where y: "y = (b, w)" by (cases y)
  from Cons.prems(2) n have "b = a" "w = v" "chain N (node_next n) ys'"
    by (auto simp: ys y chain_Cons)
  with n(4) have "y = x" "xs = ys'" by (auto simp: x y dest: Cons.IH)
  then show ?case by (simp add: ys)
qed

lemma chain_suffix: "chain N p (xs @ (a, v) # zs) \<Longrightarrow> chain N (Some a) ((a, v) # zs)"
  by (induction xs arbitrary: p) (auto simp: chain_Cons)

lemma chain_head_notin_tail:
  assumes "chain N p ((a, v) # xs)"
  shows "a \<notin> fst ` set xs"
proof
  assume "a \<in> fst ` set xs"
  then obtain w where "(a, w) \<in> set xs" by auto
  then obtain ys zs where xs: "xs = ys @ (a, w) # zs" by (auto simp: in_set_conv_decomp)
  from assms have "chain N p (((a, v) # ys) @ (a, w) # zs)" by (simp add: xs)
  then have "chain N (Some a) ((a, w) # zs)" by (rule chain_suffix)
  moreover from assms have "chain N (Some a) ((a, v) # xs)" by (auto simp: chain_Cons)
  ultimately have "(a, w) # zs = (a, v) # xs" by (rule chain_unique)
  then show False by (simp add: xs)
qed

lemma chain_distinct: "chain N p xs \<Longrightarrow> distinct (map fst xs)"
proof (induction xs arbitrary: p)
  case Nil
  then show ?case by simp
next
  case (Cons x xs)
  obtain a v where x: "x = (a, v)" by (cases x)
  from Cons.prems have "a \<notin> fst ` set xs" unfolding x by (rule chain_head_notin_tail)
  moreover from Cons.prems have "distinct (map fst xs)"
    by (auto simp: x chain_Cons dest: Cons.IH)
  ultimately show ?case by (simp add: x)
qed

lemma chain_upd_other:
  "a \<notin> fst ` set xs \<Longrightarrow> chain (N(a := y)) p xs = chain N p xs"
  by (induction xs arbitrary: p) (auto simp: chain_Cons)

lemma append_loop_last:
  "chain (nodes h) (Some a) xs \<Longrightarrow> append_loop h a = Some (Inr (fst (last xs)))"
proof (induction xs arbitrary: a)
  case Nil
  then show ?case by simp
next
  case (Cons x xs)
  obtain a' v where x: "x = (a', v)" by (cases x)
  from Cons.prems obtain n where n: "nodes h a = Some n" "a = a'"
    "chain (nodes h) (node_next n) xs"
    by (auto simp: x chain_Cons)
  show ?case
  proof (cases "node_next n")
    case None
    with n have "xs = []" by simp
    with n None show ?thesis by (subst append_loop.simps) (simp add: x)
  next
    case (Some b)
    with n have ne: "xs \<noteq> []" by auto
    from n Some have "chain (nodes h) (Some b) xs" by simp
    then have "append_loop h b = Some (Inr (fst (last xs)))" by (rule Cons.IH)
    with ne n Some show ?thesis by (subst append_loop.simps) simp
  qed
qed

lemma chain_snoc:
  assumes "chain N p xs" "xs \<noteq> []" "t = fst (last xs)" "N t = Some n"
    "new \<notin> fst ` set xs" "N new = Some m" "node_next m = None" "node_value m = v"
  shows "chain (N(t \<mapsto> n\<lparr>node_next := Some new\<rparr>)) p (xs @ [(new, v)])"
  using assms(1,2,3,5)
proof (induction xs arbitrary: p)
  case Nil
  then show ?case by simp
next
  case (Cons x xs)
  obtain a w where x: "x = (a, w)" by (cases x)
  from Cons.prems(1) have d: "a \<notin> fst ` set xs" unfolding x by (rule chain_head_notin_tail)
  from Cons.prems(1) obtain k where k: "N a = Some k" "p = Some a"
    "node_value k = w" "chain N (node_next k) xs"
    by (auto simp: x chain_Cons)
  from Cons.prems(4) have nx: "new \<noteq> a" "new \<notin> fst ` set xs" by (auto simp: x)
  show ?case
  proof (cases "xs = []")
    case True
    with Cons.prems(3) have t: "t = a" by (simp add: x)
    with k assms(4) have "k = n" by simp
    moreover from True k have "node_next k = None" by simp
    ultimately show ?thesis
      using True t k nx assms(6,7,8) by (simp add: x chain_Cons)
  next
    case False
    with Cons.prems(3) have t: "t = fst (last xs)" by simp
    from False have "last xs \<in> set xs" by simp
    with d t have ne: "t \<noteq> a" by (metis imageI)
    have "chain (N(t \<mapsto> n\<lparr>node_next := Some new\<rparr>)) (node_next k) (xs @ [(new, v)])"
      using k(4) False t nx(2) by (rule Cons.IH)
    moreover from k(1) ne have "(N(t \<mapsto> n\<lparr>node_next := Some new\<rparr>)) a = Some k" by simp
    ultimately show ?thesis unfolding x append_Cons chain_Cons using k(2,3) by blast
  qed
qed

section \<open>The methods on a well-formed list\<close>

lemma list_atE:
  assumes "list_at h self xs"
  obtains ob l where "objects h self = Some ob" "lists h (data ob) = Some l"
    "chain (nodes h) (head l) xs"
  using assms by (auto simp: list_at_def split: option.splits)

lemma node_fields: "junk\<lparr>node_next := nx, node_value := v\<rparr> = \<lparr>node_next = nx, node_value = v\<rparr>"
  by (cases junk) simp

lemma new_c_node_value_ok:
  assumes "malloc_ok H" "finite (dom (nodes h))"
  obtains new where "new \<notin> dom (nodes h)"
    "new_c_node_value H v h =
       Inr (new, h\<lparr>nodes := (nodes h)(new \<mapsto> \<lparr>node_next = None, node_value = v\<rparr>)\<rparr>)"
proof -
  from assms obtain new junk where m: "malloc_node H h = Some (new, junk)" "new \<notin> dom (nodes h)"
    by (fastforce simp: malloc_ok_def split: option.splits)
  then have "new_c_node_value H v h =
      Inr (new, h\<lparr>nodes := (nodes h)(new \<mapsto> \<lparr>node_next = None, node_value = v\<rparr>)\<rparr>)"
    by (simp add: new_c_node_value_def new_c_node_def node_fields)
  with m(2) show thesis by (rule that)
qed

lemma append_ok:
  assumes H: "malloc_ok H" and ok: "heap_ok h" and l: "list_at h self xs"
  shows "\<exists>a h'. rb_linked_list_append H self v h = Some (Inr (self, h')) \<and>
           heap_ok h' \<and> list_at h' self (xs @ [(a, v)])"
proof -
  from l obtain ob l where s: "objects h self = Some ob" "lists h (data ob) = Some l"
    "chain (nodes h) (head l) xs" by (rule list_atE)
  from ok have fin: "finite (dom (nodes h))" by (simp add: heap_ok_def)
  from H fin obtain new where new: "new \<notin> dom (nodes h)"
    "new_c_node_value H v h =
       Inr (new, h\<lparr>nodes := (nodes h)(new \<mapsto> \<lparr>node_next = None, node_value = v\<rparr>)\<rparr>)"
    by (rule new_c_node_value_ok)
  let ?m = "\<lparr>node_next = None, node_value = v\<rparr>"
  let ?h1 = "h\<lparr>nodes := (nodes h)(new \<mapsto> ?m)\<rparr>"
  from s(3) have live: "fst ` set xs \<subseteq> dom (nodes h)" by (rule chain_live)
  with new(1) have fresh: "new \<notin> fst ` set xs" by auto
  show ?thesis
  proof (cases xs)
    case Nil
    with s(3) have hd: "head l = None" by simp
    let ?h2 = "?h1\<lparr>lists := (lists ?h1)(data ob \<mapsto> l\<lparr>head := Some new\<rparr>)\<rparr>"
    have "rb_linked_list_append H self v h = Some (Inr (self, ?h2))"
      using s hd new(2) by (simp add: rb_linked_list_append_def get_struct_def)
    moreover have "heap_ok ?h2" using ok by (simp add: heap_ok_def)
    moreover have "list_at ?h2 self ([] @ [(new, v)])"
      using s by (simp add: list_at_def chain_Cons)
    ultimately show ?thesis unfolding Nil by blast
  next
    case (Cons x xs')
    obtain a0 v0 where x: "x = (a0, v0)" by (cases x)
    from s(3) have hd: "head l = Some a0" by (auto simp: Cons x chain_Cons)
    let ?t = "fst (last xs)"
    from s(3) hd have loop: "append_loop h a0 = Some (Inr ?t)"
      by (simp add: append_loop_last)
    have "last xs \<in> set xs" by (simp add: Cons)
    with live obtain n where n: "nodes h ?t = Some n" by fastforce
    with new(1) have tn: "?t \<noteq> new" by auto
    let ?h2 = "?h1\<lparr>nodes := (nodes ?h1)(?t \<mapsto> n\<lparr>node_next := Some new\<rparr>)\<rparr>"
    have "rb_linked_list_append H self v h = Some (Inr (self, ?h2))"
      using s hd loop new(2) n tn by (simp add: rb_linked_list_append_def get_struct_def)
    moreover have "heap_ok ?h2" using ok by (simp add: heap_ok_def)
    moreover have "list_at ?h2 self (xs @ [(new, v)])"
    proof -
      from fresh s(3) have "chain ((nodes h)(new \<mapsto> ?m)) (head l) xs"
        by (simp add: chain_upd_other)
      then have "chain (((nodes h)(new \<mapsto> ?m))(?t \<mapsto> n\<lparr>node_next := Some new\<rparr>)) (head l)
          (xs @ [(new, v)])"
        using fresh n tn by (intro chain_snoc [where m = ?m]) (simp_all add: Cons)
      with s show ?thesis by (simp add: list_at_def)
    qed
    ultimately show ?thesis by blast
  qed
qed

lemma prepend_ok:
  assumes H: "malloc_ok H" and ok: "heap_ok h" and l: "list_at h self xs"
  shows "\<exists>a h'. rb_linked_list_prepend H self v h = Inr (self, h') \<and>
           heap_ok h' \<and> list_at h' self ((a, v) # xs)"
proof -
  from l obtain ob l where s: "objects h self = Some ob" "lists h (data ob) = Some l"
    "chain (nodes h) (head l) xs" by (rule list_atE)
  from ok have fin: "finite (dom (nodes h))" by (simp add: heap_ok_def)
  from H fin obtain new where new: "new \<notin> dom (nodes h)"
    "new_c_node_value H v h =
       Inr (new, h\<lparr>nodes := (nodes h)(new \<mapsto> \<lparr>node_next = None, node_value = v\<rparr>)\<rparr>)"
    by (rule new_c_node_value_ok)
  from s(3) have "fst ` set xs \<subseteq> dom (nodes h)" by (rule chain_live)
  with new(1) have fresh: "new \<notin> fst ` set xs" by auto
  let ?k = "\<lparr>node_next = head l, node_value = v\<rparr>"
  let ?h' = "h\<lparr>nodes := (nodes h)(new \<mapsto> ?k), lists := (lists h)(data ob \<mapsto> l\<lparr>head := Some new\<rparr>)\<rparr>"
  have "rb_linked_list_prepend H self v h = Inr (self, ?h')"
    using s new(2) by (simp add: rb_linked_list_prepend_def get_struct_def)
  moreover have "heap_ok ?h'" using ok by (simp add: heap_ok_def)
  moreover have "list_at ?h' self ((new, v) # xs)"
    using s fresh by (simp add: list_at_def chain_Cons chain_upd_other)
  ultimately show ?thesis by blast
qed

lemma shift_nil: "list_at h self [] \<Longrightarrow> rb_linked_list_shift H self h = Inr (Qnil H, h)"
  by (auto simp: list_at_def rb_linked_list_shift_def get_struct_def split: option.splits)

lemma shift_cons:
  assumes ok: "heap_ok h" and l: "list_at h self ((a, v) # xs)"
  shows "\<exists>h'. rb_linked_list_shift H self h = Inr (v, h') \<and> heap_ok h' \<and> list_at h' self xs"
proof -
  from l obtain ob l where s: "objects h self = Some ob" "lists h (data ob) = Some l"
    "chain (nodes h) (head l) ((a, v) # xs)" by (rule list_atE)
  from s(3) obtain n where n: "head l = Some a" "nodes h a = Some n" "node_value n = v"
    "chain (nodes h) (node_next n) xs" by (auto simp: chain_Cons)
  from s(3) have d: "a \<notin> fst ` set xs" by (rule chain_head_notin_tail)
  let ?h' = "h\<lparr>nodes := (nodes h)(a := None), lists := (lists h)(data ob \<mapsto> l\<lparr>head := node_next n\<rparr>)\<rparr>"
  have "rb_linked_list_shift H self h = Inr (v, ?h')"
    using s n by (simp add: rb_linked_list_shift_def get_struct_def)
  moreover have "heap_ok ?h'" using ok by (simp add: heap_ok_def)
  moreover have "list_at ?h' self xs"
    using s n(4) d by (simp add: list_at_def chain_upd_other)
  ultimately show ?thesis by blast
qed

lemma allocate_ok:
  assumes H: "malloc_ok H" and ok: "heap_ok h"
  shows "\<exists>self h'. rb_linked_list_allocate H k h = Inr (self, h') \<and> heap_ok h' \<and>
           list_at h' self [] \<and> (\<exists>ob. objects h' self = Some ob \<and> klass ob = k)"
proof -
  from ok have "finite (dom (lists h))" by (simp add: heap_ok_def)
  with H obtain a junk where m: "malloc_list H h = Some (a, junk)"
    by (fastforce simp: malloc_ok_def split: option.splits)
  then show ?thesis using ok
    by (simp add: rb_linked_list_allocate_def Let_def heap_ok_def list_at_def)
qed

section \<open>Runs of calls\<close>

lemma run_op_ok:
  assumes "malloc_ok H" "heap_ok h" "list_at h self xs"
  shows "\<exists>h' xs'. run_op H self x h = Some (Inr (returned H self (map snd xs) x, h')) \<and>
           heap_ok h' \<and> list_at h' self xs' \<and> map snd xs' = stored_after (map snd xs) x"
proof (cases x)
  case (Append v)
  from append_ok [OF assms, of v] obtain a h' where
    "rb_linked_list_append H self v h = Some (Inr (self, h'))" "heap_ok h'"
    "list_at h' self (xs @ [(a, v)])" by blast
  then show ?thesis unfolding Append by (intro exI [of _ h'] exI [of _ "xs @ [(a, v)]"]) simp
next
  case (Prepend v)
  from prepend_ok [OF assms, of v] obtain a h' where
    "rb_linked_list_prepend H self v h = Inr (self, h')" "heap_ok h'"
    "list_at h' self ((a, v) # xs)" by blast
  then show ?thesis unfolding Prepend by (intro exI [of _ h'] exI [of _ "(a, v) # xs"]) simp
next
  case Shift
  show ?thesis
  proof (cases xs)
    case Nil
    with assms(3) have "rb_linked_list_shift H self h = Inr (Qnil H, h)"
      by (simp add: shift_nil)
    with assms Nil show ?thesis unfolding Shift
      by (intro exI [of _ h] exI [of _ "[]"]) simp
  next
    case (Cons y ys)
    obtain a v where y: "y = (a, v)" by (cases y)
    from assms(3) have "list_at h self ((a, v) # ys)" by (simp add: Cons y)
    from shift_cons [OF assms(2) this, of H] obtain h' where
      "rb_linked_list_shift H self h = Inr (v, h')" "heap_ok h'" "list_at h' self ys" by blast
    then show ?thesis unfolding Shift
      by (intro exI [of _ h'] exI [of _ ys]) (simp add: Cons y)
  qed
qed

lemma run_ops_ok:
  assumes "malloc_ok H" "heap_ok h" "list_at h self xs"
  shows "\<exists>h' xs'. run_ops H self ops h = Some (Inr (returned_all H self (map snd xs) ops, h')) \<and>
           heap_ok h' \<and> list_at h' self xs' \<and>
           map snd xs' = foldl stored_after (map snd xs) ops"
  using assms(2,3)
proof (induction ops arbitrary: h xs)
  case Nil
  then show ?case by auto
next
  case (Cons x ops)
  from run_op_ok [OF assms(1) Cons.prems, of x] obtain h1 xs1 where
    1: "run_op H self x h = Some (Inr (returned H self (map snd xs) x, h1))"
    "heap_ok h1" "list_at h1 self xs1" "map snd xs1 = stored_after (map snd xs) x" by blast
  from Cons.IH [OF 1(2,3)] obtain h2 xs2 where
    2: "run_ops H self ops h1 = Some (Inr (returned_all H self (map snd xs1) ops, h2))"
    "heap_ok h2" "list_at h2 self xs2" "map snd xs2 = foldl stored_after (map snd xs1) ops"
    by blast
  from 1 2 show ?case
    by (intro exI [of _ h2] exI [of _ xs2]) simp
qed

lemma returned_all_append:
  "returned_all H self vs (ops1 @ ops2) =
     returned_all H self vs ops1 @ returned_all H self (foldl stored_after vs ops1) ops2"
  by (induction ops1 arbitrary: vs) simp_all

lemma stored_appends: "foldl stored_after vs (map Append ws) = vs @ ws"
  by (induction ws arbitrary: vs) simp_all

lemma returned_appends: "returned_all H self vs (map Append ws) = replicate (length ws) self"
  by (induction ws arbitrary: vs) simp_all

lemma stored_prepends: "foldl stored_after vs (map Prepend ws) = rev ws @ vs"
  by (induction ws arbitrary: vs) simp_all

lemma returned_prepends: "returned_all H self vs (map Prepend ws) = replicate (length ws) self"
  by (induction ws arbitrary: vs) simp_all

lemma returned_shifts:
  "returned_all H self vs (replicate (length vs + m) Shift) = vs @ replicate m (Qnil H)"
proof (induction vs)
  case Nil
  show ?case by (induction m) simp_all
next
  case (Cons v vs)
  then show ?case by simp
qed

lemma stored_shifts: "foldl stored_after vs (replicate (length vs + m) Shift) = []"
proof (induction vs)
  case Nil
  show ?case by (induction m) simp_all
next
  case (Cons v vs)
  then show ?case by simp
qed

lemma finite_fresh_addr: "finite A \<Longrightarrow> fresh_addr A \<notin> A"
proof
  assume "finite A" "fresh_addr A \<in> A"
  then have "A \<noteq> {}" "Suc (Max A) \<in> A" by (auto simp: fresh_addr_def split: if_splits)
  with \<open>finite A\<close> have "Suc (Max A) \<le> Max A" by (intro Max_ge)
  then show False by simp
qed

lemma malloc_ok_mri: "malloc_ok mri"
  by (simp add: malloc_ok_def mri_def finite_fresh_addr)

lemma heap_ok_empty: "heap_ok empty_heap"
  by (simp add: heap_ok_def empty_heap_def)

section \<open>Loops on a chain, and the stores built on the test host\<close>

lemma mark_loop_chain:
  "chain (nodes h) p xs \<Longrightarrow>
     mark_loop h p marked = Some (Inr (marked @ filter (\<lambda>v. v \<noteq> 0) (map snd xs)))"
proof (induction xs arbitrary: p marked)
  case Nil
  then show ?case by (subst mark_loop.simps) simp
next
  case (Cons x xs)
  obtain a v where x: "x = (a, v)" by (cases x)
  from Cons.prems obtain n where n: "p = Some a" "nodes h a = Some n" "node_value n = v"
    "chain (nodes h) (node_next n) xs"
    by (auto simp: x chain_Cons)
  from n(4) have "mark_loop h (node_next n) (if v \<noteq> 0 then marked @ [v] else marked) =
      Some (Inr ((if v \<noteq> 0 then marked @ [v] else marked) @ filter (\<lambda>v. v \<noteq> 0) (map snd xs)))"
    by (rule Cons.IH)
  with n(1,2,3) show ?case by (subst mark_loop.simps) (auto simp: x split: if_splits)
qed

lemma allocate_mri: "rb_linked_list_allocate mri 0 empty_heap = Inr (0x1000, heap_empty_list)"
  by (simp add: rb_linked_list_allocate_def mri_def empty_heap_def heap_empty_list_def
      fresh_addr_def)

lemma append_mri:
  "rb_linked_list_append mri 0x1000 v heap_empty_list = Some (Inr (0x1000, heap_one_node v))"
  by (simp add: rb_linked_list_append_def get_struct_def new_c_node_value_def new_c_node_def
      mri_def heap_empty_list_def heap_one_node_def fresh_addr_def)

lemma list_at_one: "list_at (heap_one_node v) 0x1000 [(0, v)]"
  by (simp add: list_at_def heap_one_node_def chain_Cons)

lemma list_at_empty: "list_at heap_empty_list 0x1000 []"
  by (simp add: list_at_def heap_empty_list_def)

lemma reach_chain: "chain N p xs \<Longrightarrow> reach N p b \<longleftrightarrow> b \<in> fst ` set xs"
proof (induction xs arbitrary: p)
  case Nil
  then show ?case by (auto elim: reach.cases)
next
  case (Cons x xs)
  obtain a v where x: "x = (a, v)" by (cases x)
  from Cons.prems obtain n where n: "p = Some a" "N a = Some n"
    "chain N (node_next n) xs"
    by (auto simp: x chain_Cons)
  from n(3) have IH: "reach N (node_next n) b \<longleftrightarrow> b \<in> fst ` set xs" by (rule Cons.IH)
  have "reach N (Some a) b \<longleftrightarrow> b = a \<or> reach N (node_next n) b"
    using n(2) by (auto elim: reach.cases intro: reach.intros)
  with IH n(1) show ?case by (auto simp: x)
qed

lemma card_reach:
  assumes "chain N p xs"
  shows "card {b. reach N p b} = length xs"
proof -
  from assms have "{b. reach N p b} = set (map fst xs)" by (auto simp: reach_chain)
  moreover from assms have "distinct (map fst xs)" by (rule chain_distinct)
  ultimately show ?thesis by (simp add: distinct_card del: set_map)
qed

lemma append_returns_self:
  "rb_linked_list_append H self v h = Some (Inr (r, h')) \<Longrightarrow> r = self"
  unfolding rb_linked_list_append_def
  by (auto split: sum.splits option.splits prod.splits)

lemma prepend_returns_self:
  "rb_linked_list_prepend H self v h = Inr (r, h') \<Longrightarrow> r = self"
  unfolding rb_linked_list_prepend_def Let_def
  by (auto split: sum.splits option.splits prod.splits)

lemma insert_returns_self:
  "is_insert x \<Longrightarrow> run_op H self x h = Some (Inr (r, h')) \<Longrightarrow> r = self"
  by (cases x) (auto dest: append_returns_self prepend_returns_self)

lemma new_c_node_value_objects:
  "new_c_node_value H v h = Inr (a, h') \<Longrightarrow> objects h' = objects h"
  unfolding new_c_node_value_def new_c_node_def
  by (auto split: sum.splits option.splits prod.splits)

lemma append_objects:
  "rb_linked_list_append H self v h = Some (Inr (r, h')) \<Longrightarrow> objects h' = objects h"
  unfolding rb_linked_list_append_def
  by (auto split: sum.splits option.splits prod.splits dest: new_c_node_value_objects)

lemma prepend_objects:
  "rb_linked_list_prepend H self v h = Inr (r, h') \<Longrightarrow> objects h' = objects h"
  unfolding rb_linked_list_prepend_def Let_def
  by (auto split: sum.splits option.splits prod.splits dest: new_c_node_value_objects)

lemma shift_objects:
  "rb_linked_list_shift H self h = Inr (r, h') \<Longrightarrow> objects h' = objects h"
  unfolding rb_linked_list_shift_def Let_def
  by (auto split: sum.splits option.splits prod.splits)

lemma run_op_objects:
  "run_op H self x h = Some (Inr (r, h')) \<Longrightarrow> objects h' = objects h"
  by (cases x) (auto dest: append_objects prepend_objects shift_objects)

lemma run_ops_objects:
  "run_ops H self ops h = Some (Inr (rs, h')) \<Longrightarrow> objects h' = objects h"
proof (induction ops arbitrary: h rs)
  case Nil
  then show ?case by simp
next
  case (Cons x ops)
  from Cons.prems obtain r h1 rs' where 1: "run_op H self x h = Some (Inr (r, h1))"
    and 2: "run_ops H self ops h1 = Some (Inr (rs', h'))"
    by (auto split: option.splits sum.splits prod.splits)
  from 2 have "objects h' = objects h1" by (rule Cons.IH)
  moreover from 1 have "objects h1 = objects h" by (rule run_op_objects)
  ultimately show ?case by simp
qed

lemma inspect_loop_rest:
  "chain (nodes h) p xs \<Longrightarrow> 0 < i \<Longrightarrow>
     inspect_loop H h p str i =
       Some (Inr (str @ concat (map (\<lambda>x. '', '' @ rb_inspect H (snd x)) xs)))"
proof (induction xs arbitrary: p str i)
  case Nil
  then show ?case by (subst inspect_loop.simps) simp
next
  case (Cons x xs)
  obtain a v where x: "x = (a, v)" by (cases x)
  from Cons.prems(1) obtain n where n: "p = Some a" "nodes h a = Some n" "node_value n = v"
    "chain (nodes h) (node_next n) xs"
    by (auto simp: x chain_Cons)
  from Cons.prems(2) have "0 < i + 1" by simp
  with n(4) have "inspect_loop H h (node_next n) ((str @ '', '') @ rb_inspect H v) (i + 1) =
      Some (Inr (((str @ '', '') @ rb_inspect H v) @
        concat (map (\<lambda>x. '', '' @ rb_inspect H (snd x)) xs)))"
    by (rule Cons.IH)
  with n(1,2,3) Cons.prems(2) show ?case
    by (subst inspect_loop.simps) (simp add: x)
qed

lemma comma_separated_Cons:
  "comma_separated (s # ss) = s @ concat (map (\<lambda>t. '', '' @ t) ss)"
  by (induction ss arbitrary: s) simp_all

lemma inspect_loop_chain:
  assumes "chain (nodes h) p xs"
  shows "inspect_loop H h p str 0 =
           Some (Inr (str @ comma_separated (map (\<lambda>x. rb_inspect H (snd x)) xs)))"
proof (cases xs)
  case Nil
  with assms show ?thesis by (subst inspect_loop.simps) simp
next
  case (Cons x xs')
  obtain a v where x: "x = (a, v)" by (cases x)
  from assms obtain n where n: "p = Some a" "nodes h a = Some n" "node_value n = v"
    "chain (nodes h) (node_next n) xs'"
    by (auto simp: Cons x chain_Cons)
  from n(4) have "inspect_loop H h (node_next n) (str @ rb_inspect H v) 1 =
      Some (Inr ((str @ rb_inspect H v) @
        concat (map (\<lambda>x. '', '' @ rb_inspect H (snd x)) xs')))"
    by (rule inspect_loop_rest) simp
  with n(1,2,3) show ?thesis
    by (subst inspect_loop.simps) (simp add: Cons x comma_separated_Cons comp_def)
qed

lemma inspect_ok:
  assumes "list_at h self xs" "objects h self = Some ob"
  shows "rb_linked_list_inspect H self h =
           Some (Inr (''#<'' @ rb_class_name H (klass ob) @ '' {'' @
                      comma_separated (map (\<lambda>x. rb_inspect H (snd x)) xs) @ ''}>'', h))"
proof -
  from assms obtain l where "lists h (data ob) = Some l" "chain (nodes h) (head l) xs"
    by (auto simp: list_at_def split: option.splits)
  then show ?thesis using assms(2)
    by (simp add: rb_linked_list_inspect_def get_struct_def inspect_loop_chain)
qed

section \<open>Insertion order and removal order\<close>

text \<open>
  C1. On a list fresh from \<open>allocate\<close>, after \<open>append\<close> of the values \<open>vs\<close> in order
  (each call returning the list), the next \<open>length vs\<close> calls of \<open>shift\<close> return the
  values of \<open>vs\<close> in the same order, and each of the \<open>m\<close> calls after them returns
  \<open>Qnil\<close>. The whole run returns: no call faults or loops.
\<close>

theorem appends_then_shifts:
  assumes "malloc_ok H" "heap_ok h0"
  shows "\<exists>self h1 h2.
           rb_linked_list_allocate H k h0 = Inr (self, h1) \<and>
           run_ops H self (map Append vs @ replicate (length vs + m) Shift) h1 =
             Some (Inr (replicate (length vs) self @ vs @ replicate m (Qnil H), h2))"
proof -
  from allocate_ok [OF assms, of k] obtain self h1 where
    a: "rb_linked_list_allocate H k h0 = Inr (self, h1)" "heap_ok h1" "list_at h1 self []"
    by blast
  from run_ops_ok [OF assms(1) a(2,3), of "map Append vs @ replicate (length vs + m) Shift"]
  obtain h2 where "run_ops H self (map Append vs @ replicate (length vs + m) Shift) h1 =
      Some (Inr (returned_all H self [] (map Append vs @ replicate (length vs + m) Shift), h2))"
    by auto
  moreover have "returned_all H self [] (map Append vs @ replicate (length vs + m) Shift) =
      replicate (length vs) self @ vs @ replicate m (Qnil H)"
    using returned_shifts [of H self vs m]
    by (simp add: returned_all_append returned_appends stored_appends)
  ultimately show ?thesis using a(1) by auto
qed

text \<open>The run on the host \<open>mri\<close>, from the empty store, with three values and five shifts.\<close>

theorem appends_then_shifts_witness:
  "malloc_ok mri \<and> heap_ok empty_heap \<and>
   rb_linked_list_allocate mri 0 empty_heap = Inr (0x1000, heap_empty_list) \<and>
   (\<exists>h2. run_ops mri 0x1000
            [Append 3, Append 5, Append 7, Shift, Shift, Shift, Shift, Shift] heap_empty_list =
          Some (Inr ([0x1000, 0x1000, 0x1000, 3, 5, 7, 8, 8], h2)))"
proof -
  have ops: "map Append [3, 5, 7] @ replicate (length [3, 5, 7 :: VALUE] + 2) Shift =
      [Append 3, Append 5, Append 7, Shift, Shift, Shift, Shift, Shift]"
    by (simp add: eval_nat_numeral)
  have res: "replicate (length [3, 5, 7 :: VALUE]) self @ [3, 5, 7] @ replicate 2 (Qnil mri) =
      [self, self, self, 3, 5, 7, 8, 8]" for self :: VALUE
    by (simp add: eval_nat_numeral mri_def)
  show ?thesis
    using appends_then_shifts [OF malloc_ok_mri heap_ok_empty, of 0 "[3, 5, 7]" 2]
    unfolding ops res allocate_mri
    by (simp only: malloc_ok_mri heap_ok_empty simp_thms sum.inject prod.inject) blast
qed

text \<open>
  C2. On a list fresh from \<open>allocate\<close>, after \<open>prepend\<close> of the values \<open>vs\<close> in order,
  the next \<open>length vs\<close> calls of \<open>shift\<close> return the values of \<open>vs\<close> in reverse order.
\<close>

theorem prepends_then_shifts:
  assumes "malloc_ok H" "heap_ok h0"
  shows "\<exists>self h1 h2.
           rb_linked_list_allocate H k h0 = Inr (self, h1) \<and>
           run_ops H self (map Prepend vs @ replicate (length vs) Shift) h1 =
             Some (Inr (replicate (length vs) self @ rev vs, h2))"
proof -
  from allocate_ok [OF assms, of k] obtain self h1 where
    a: "rb_linked_list_allocate H k h0 = Inr (self, h1)" "heap_ok h1" "list_at h1 self []"
    by blast
  from run_ops_ok [OF assms(1) a(2,3), of "map Prepend vs @ replicate (length vs) Shift"]
  obtain h2 where "run_ops H self (map Prepend vs @ replicate (length vs) Shift) h1 =
      Some (Inr (returned_all H self [] (map Prepend vs @ replicate (length vs) Shift), h2))"
    by auto
  moreover have "returned_all H self [] (map Prepend vs @ replicate (length vs) Shift) =
      replicate (length vs) self @ rev vs"
    using returned_shifts [of H self "rev vs" 0]
    by (simp add: returned_all_append returned_prepends stored_prepends)
  ultimately show ?thesis using a(1) by auto
qed

text \<open>The run on the host \<open>mri\<close>, from the empty store, with three values.\<close>

theorem prepends_then_shifts_witness:
  "malloc_ok mri \<and> heap_ok empty_heap \<and>
   rb_linked_list_allocate mri 0 empty_heap = Inr (0x1000, heap_empty_list) \<and>
   (\<exists>h2. run_ops mri 0x1000 [Prepend 3, Prepend 5, Prepend 7, Shift, Shift, Shift]
            heap_empty_list =
          Some (Inr ([0x1000, 0x1000, 0x1000, 7, 5, 3], h2)))"
proof -
  have ops: "map Prepend [3, 5, 7] @ replicate (length [3, 5, 7 :: VALUE]) Shift =
      [Prepend 3, Prepend 5, Prepend 7, Shift, Shift, Shift]"
    by (simp add: eval_nat_numeral)
  have res: "replicate (length [3, 5, 7 :: VALUE]) self @ rev [3, 5, 7] =
      [self, self, self, 7, 5, 3]" for self :: VALUE
    by (simp add: eval_nat_numeral)
  show ?thesis
    using prepends_then_shifts [OF malloc_ok_mri heap_ok_empty, of 0 "[3, 5, 7]"]
    unfolding ops res allocate_mri
    by (simp only: malloc_ok_mri heap_ok_empty simp_thms sum.inject prod.inject) blast
qed

section \<open>The collector's hooks\<close>

text \<open>
  C3, as the code has it. For a well-formed list, \<open>linked_list_mark\<close> returns without a
  fault and passes to \<^verbatim>\<open>rb_gc_mark\<close>, once per node and in head-to-tail order, the
  value of every node of the chain whose handle is not zero; the nodes it skips, at
  any position, are those holding the zero handle.
\<close>

theorem mark_reports_nonzero:
  assumes "list_at h self xs" "objects h self = Some ob"
  shows "linked_list_mark h (data ob) = Some (Inr (filter (\<lambda>v. v \<noteq> 0) (map snd xs)))"
proof -
  from assms obtain l where "lists h (data ob) = Some l" "chain (nodes h) (head l) xs"
    by (auto simp: list_at_def split: option.splits)
  then show ?thesis by (simp add: linked_list_mark_def mark_loop_chain)
qed

text \<open>The list holding the one value \<open>8\<close>.\<close>

theorem mark_reports_nonzero_witness:
  "list_at (heap_one_node 8) 0x1000 [(0, 8)] \<and>
   objects (heap_one_node 8) 0x1000 = Some \<lparr>klass = 0, data = 0\<rparr> \<and>
   linked_list_mark (heap_one_node 8) 0 = Some (Inr [8])"
proof -
  have ob: "objects (heap_one_node 8) 0x1000 = Some \<lparr>klass = 0, data = 0\<rparr>"
    by (simp add: heap_one_node_def)
  from mark_reports_nonzero [OF list_at_one ob] show ?thesis
    using list_at_one ob by simp
qed

text \<open>
  C3 as stated fails. On \<open>mri\<close>, \<open>shift\<close> on the empty list returns the "none"
  sentinel \<open>Qnil\<close>; after \<open>append\<close> of that sentinel, \<open>linked_list_mark\<close> reports it,
  where the claim has the node skipped. And a list holding the zero handle has a value
  reachable from \<^verbatim>\<open>head\<close> that is not reported.
\<close>

theorem mark_skips_none_counterexample:
  "rb_linked_list_allocate mri 0 empty_heap = Inr (0x1000, heap_empty_list) \<and>
   rb_linked_list_shift mri 0x1000 heap_empty_list = Inr (Qnil mri, heap_empty_list) \<and>
   rb_linked_list_append mri 0x1000 (Qnil mri) heap_empty_list =
     Some (Inr (0x1000, heap_one_node (Qnil mri))) \<and>
   linked_list_mark (heap_one_node (Qnil mri)) 0 = Some (Inr [Qnil mri]) \<and>
   linked_list_mark (heap_one_node (Qnil mri)) 0 \<noteq> Some (Inr []) \<and>
   rb_linked_list_append mri 0x1000 0 heap_empty_list = Some (Inr (0x1000, heap_one_node 0)) \<and>
   linked_list_mark (heap_one_node 0) 0 = Some (Inr []) \<and>
   Qnil mri \<noteq> 0"
proof -
  have "linked_list_mark (heap_one_node (Qnil mri)) 0 = Some (Inr [Qnil mri])"
    by (simp add: linked_list_mark_def heap_one_node_def mark_loop.simps mri_def)
  moreover have "linked_list_mark (heap_one_node 0) 0 = Some (Inr [])"
    by (simp add: linked_list_mark_def heap_one_node_def mark_loop.simps)
  moreover have "rb_linked_list_shift mri 0x1000 heap_empty_list = Inr (Qnil mri, heap_empty_list)"
    using list_at_empty by (rule shift_nil)
  moreover have "Qnil mri \<noteq> 0" by (simp add: mri_def)
  ultimately show ?thesis by (simp add: allocate_mri append_mri)
qed

text \<open>
  C4. \<open>linked_list_free\<close> releases the list block only. On \<open>mri\<close>, after \<open>allocate\<close>
  and \<open>append\<close> of the Integer \<open>1\<close>, the hook leaves the node block of that value live
  in a store with no list block: the node is not destroyed with the list.
\<close>

theorem free_leaks_nodes:
  "rb_linked_list_allocate mri 0 empty_heap = Inr (0x1000, heap_empty_list) \<and>
   rb_linked_list_append mri 0x1000 (INT2FIX 1) heap_empty_list =
     Some (Inr (0x1000, heap_one_node (INT2FIX 1))) \<and>
   linked_list_free (heap_one_node (INT2FIX 1)) 0 =
     Inr ((heap_one_node (INT2FIX 1))\<lparr>lists := Map.empty\<rparr>) \<and>
   nodes ((heap_one_node (INT2FIX 1))\<lparr>lists := Map.empty\<rparr>) 0 =
     Some \<lparr>node_next = None, node_value = INT2FIX 1\<rparr>"
  by (simp add: allocate_mri append_mri) (simp add: linked_list_free_def heap_one_node_def)

text \<open>
  C10. \<open>linked_list_memsize\<close> returns \<^verbatim>\<open>sizeof(linkedListType)\<close>, the same number for
  every store and every list pointer, whatever the nodes in the store.
\<close>

theorem memsize_constant:
  "linked_list_memsize H h ptr = sizeof_linkedListType H \<and>
   linked_list_memsize H h ptr = linked_list_memsize H h' ptr'"
  by (simp add: linked_list_memsize_def)

section \<open>Shift on the empty list\<close>

text \<open>
  C5. On an empty list \<open>shift\<close> does not fault: it returns \<open>Qnil\<close> and the store it
  leaves is the store it was given, so the list is still empty; the same holds for
  any number of calls in a row.
\<close>

theorem shift_on_empty:
  assumes "list_at h self []"
  shows "rb_linked_list_shift H self h = Inr (Qnil H, h) \<and>
         run_ops H self (replicate m Shift) h = Some (Inr (replicate m (Qnil H), h))"
proof -
  from assms have s: "rb_linked_list_shift H self h = Inr (Qnil H, h)" by (rule shift_nil)
  then have "run_ops H self (replicate m Shift) h = Some (Inr (replicate m (Qnil H), h))"
    by (induction m) simp_all
  with s show ?thesis by simp
qed

text \<open>The empty list made by \<open>allocate\<close> on \<open>mri\<close>.\<close>

theorem shift_on_empty_witness:
  "list_at heap_empty_list 0x1000 [] \<and>
   rb_linked_list_shift mri 0x1000 heap_empty_list = Inr (8, heap_empty_list) \<and>
   run_ops mri 0x1000 [Shift, Shift] heap_empty_list = Some (Inr ([8, 8], heap_empty_list))"
proof -
  have q: "Qnil mri = 8" by (simp add: mri_def)
  have r: "replicate 2 x = [x, x]" for x :: 'a by (simp add: eval_nat_numeral)
  from shift_on_empty [OF list_at_empty, of mri 2] show ?thesis
    unfolding q r using list_at_empty by simp
qed

section \<open>Rendering\<close>

text \<open>
  C6. For a well-formed list \<open>inspect\<close> returns \<^verbatim>\<open>"#<"\<close>, the class name, \<^verbatim>\<open>" {"\<close>, the
  renderings of the stored values in head-to-tail order separated by \<^verbatim>\<open>", "\<close>, and
  \<^verbatim>\<open>"}>"\<close>, and leaves the store as it was. In particular a list fresh from \<open>allocate\<close>
  renders with empty braces, and after \<open>append\<close> of \<open>a\<close>, \<open>b\<close>, \<open>c\<close> the braces hold the
  three renderings in that order.
\<close>

theorem inspect_renders:
  "(list_at h self xs \<and> objects h self = Some ob \<longrightarrow>
      rb_linked_list_inspect H self h =
        Some (Inr (''#<'' @ rb_class_name H (klass ob) @ '' {'' @
                   comma_separated (map (\<lambda>x. rb_inspect H (snd x)) xs) @ ''}>'', h))) \<and>
   (malloc_ok H \<and> heap_ok h0 \<longrightarrow>
      (\<exists>self h1 h2.
         rb_linked_list_allocate H k h0 = Inr (self, h1) \<and>
         rb_linked_list_inspect H self h1 =
           Some (Inr (''#<'' @ rb_class_name H k @ '' {}>'', h1)) \<and>
         run_ops H self [Append a, Append b, Append c] h1 = Some (Inr ([self, self, self], h2)) \<and>
         rb_linked_list_inspect H self h2 =
           Some (Inr (''#<'' @ rb_class_name H k @ '' {'' @ rb_inspect H a @ '', '' @
                      rb_inspect H b @ '', '' @ rb_inspect H c @ ''}>'', h2))))"
proof (intro conjI impI)
  assume "list_at h self xs \<and> objects h self = Some ob"
  then show "rb_linked_list_inspect H self h =
        Some (Inr (''#<'' @ rb_class_name H (klass ob) @ '' {'' @
                   comma_separated (map (\<lambda>x. rb_inspect H (snd x)) xs) @ ''}>'', h))"
    by (elim conjE) (rule inspect_ok)
next
  assume "malloc_ok H \<and> heap_ok h0"
  then have H: "malloc_ok H" and ok: "heap_ok h0" by simp_all
  from allocate_ok [OF H ok, of k] obtain self h1 ob1 where
    al: "rb_linked_list_allocate H k h0 = Inr (self, h1)" "heap_ok h1" "list_at h1 self []"
    "objects h1 self = Some ob1" "klass ob1 = k"
    by blast
  from inspect_ok [OF al(3,4), of H] al(5)
  have i1: "rb_linked_list_inspect H self h1 = Some (Inr (''#<'' @ rb_class_name H k @ '' {}>'', h1))"
    by simp
  from run_ops_ok [OF H al(2,3), of "[Append a, Append b, Append c]"] obtain h2 xs2 where
    r: "run_ops H self [Append a, Append b, Append c] h1 = Some (Inr ([self, self, self], h2))"
    "list_at h2 self xs2" "map snd xs2 = [a, b, c]"
    by auto
  from r(1) have "objects h2 = objects h1" by (rule run_ops_objects)
  with al(4,5) obtain ob2 where ob2: "objects h2 self = Some ob2" "klass ob2 = k" by simp
  have "map (\<lambda>x. rb_inspect H (snd x)) xs2 = map (rb_inspect H) (map snd xs2)" by simp
  also have "\<dots> = [rb_inspect H a, rb_inspect H b, rb_inspect H c]" by (simp add: r(3))
  finally have m: "map (\<lambda>x. rb_inspect H (snd x)) xs2 = [rb_inspect H a, rb_inspect H b, rb_inspect H c]" .
  from inspect_ok [OF r(2) ob2(1), of H] ob2(2) m
  have i2: "rb_linked_list_inspect H self h2 =
           Some (Inr (''#<'' @ rb_class_name H k @ '' {'' @ rb_inspect H a @ '', '' @
                      rb_inspect H b @ '', '' @ rb_inspect H c @ ''}>'', h2))"
    by simp
  from al(1) i1 r(1) i2 show "\<exists>self h1 h2.
         rb_linked_list_allocate H k h0 = Inr (self, h1) \<and>
         rb_linked_list_inspect H self h1 =
           Some (Inr (''#<'' @ rb_class_name H k @ '' {}>'', h1)) \<and>
         run_ops H self [Append a, Append b, Append c] h1 = Some (Inr ([self, self, self], h2)) \<and>
         rb_linked_list_inspect H self h2 =
           Some (Inr (''#<'' @ rb_class_name H k @ '' {'' @ rb_inspect H a @ '', '' @
                      rb_inspect H b @ '', '' @ rb_inspect H c @ ''}>'', h2))"
    by blast
qed


text \<open>
  On \<open>mri\<close>: the list holding the Integer \<open>1\<close>, the fresh list, and the list after
  \<open>append\<close> of the Integers \<open>1\<close>, \<open>2\<close>, \<open>3\<close>.
\<close>

theorem inspect_renders_witness:
  "list_at (heap_one_node (INT2FIX 1)) 0x1000 [(0, INT2FIX 1)] \<and>
   objects (heap_one_node (INT2FIX 1)) 0x1000 = Some \<lparr>klass = 0, data = 0\<rparr> \<and>
   rb_linked_list_inspect mri 0x1000 (heap_one_node (INT2FIX 1)) =
     Some (Inr (''#<LinkedList {1}>'', heap_one_node (INT2FIX 1))) \<and>
   malloc_ok mri \<and> heap_ok empty_heap \<and>
   rb_linked_list_allocate mri 0 empty_heap = Inr (0x1000, heap_empty_list) \<and>
   rb_linked_list_inspect mri 0x1000 heap_empty_list =
     Some (Inr (''#<LinkedList {}>'', heap_empty_list)) \<and>
   (\<exists>h2. run_ops mri 0x1000 [Append (INT2FIX 1), Append (INT2FIX 2), Append (INT2FIX 3)]
            heap_empty_list =
          Some (Inr ([0x1000, 0x1000, 0x1000], h2)) \<and>
        rb_linked_list_inspect mri 0x1000 h2 = Some (Inr (''#<LinkedList {1, 2, 3}>'', h2)))"
proof -
  have c: "rb_class_name mri k = ''LinkedList''" for k by (simp add: mri_def)
  have i: "rb_inspect mri (INT2FIX 1) = ''1''" "rb_inspect mri (INT2FIX 2) = ''2''"
    "rb_inspect mri (INT2FIX 3) = ''3''"
    by (simp_all add: mri_def fixnum_inspect_def INT2FIX_def)
  have ob: "objects (heap_one_node (INT2FIX 1)) 0x1000 = Some \<lparr>klass = 0, data = 0\<rparr>"
    by (simp add: heap_one_node_def)
  from inspect_renders [of "heap_one_node (INT2FIX 1)" "0x1000" "[(0, INT2FIX 1)]"
      "\<lparr>klass = 0, data = 0\<rparr>" mri empty_heap 0 "INT2FIX 1" "INT2FIX 2" "INT2FIX 3"]
  show ?thesis using malloc_ok_mri heap_ok_empty list_at_one ob
    unfolding allocate_mri by (simp add: c i del: One_nat_def)
qed

section \<open>Chaining\<close>

text \<open>
  C7. For \<open>x\<close> a call of \<open>append\<close> or \<open>prepend\<close>: calling a second method on what \<open>x\<close>
  returned is the same as calling it on the list, in every store; and on a
  well-formed list \<open>x\<close> returns, and what it returns is the list itself.
\<close>

theorem insert_chaining:
  assumes "is_insert x"
  shows "chained H self x y h = sequential H self x y h \<and>
         (malloc_ok H \<and> heap_ok h \<and> list_at h self xs \<longrightarrow>
            (\<exists>h'. run_op H self x h = Some (Inr (self, h'))))"
proof -
  have "chained H self x y h = sequential H self x y h"
  proof (cases "run_op H self x h")
    case None
    then show ?thesis by (simp add: chained_def sequential_def)
  next
    case (Some res)
    show ?thesis
    proof (cases res)
      case (Inl f)
      with Some show ?thesis by (simp add: chained_def sequential_def)
    next
      case (Inr rh)
      obtain r h' where rh: "rh = (r, h')" by (cases rh)
      from assms Some Inr rh have "r = self" by (auto dest: insert_returns_self)
      with Some Inr rh show ?thesis by (simp add: chained_def sequential_def)
    qed
  qed
  moreover have "\<exists>h'. run_op H self x h = Some (Inr (self, h'))"
    if "malloc_ok H" "heap_ok h" "list_at h self xs"
  proof -
    from run_op_ok [OF that, of x] obtain h' where
      "run_op H self x h = Some (Inr (returned H self (map snd xs) x, h'))" by blast
    moreover from assms have "returned H self (map snd xs) x = self" by (cases x) simp_all
    ultimately show ?thesis by auto
  qed
  ultimately show ?thesis by blast
qed

text \<open>Two appends on the empty list made by \<open>allocate\<close> on \<open>mri\<close>.\<close>

theorem insert_chaining_witness:
  "is_insert (Append 3) \<and>
   chained mri 0x1000 (Append 3) (Append 5) heap_empty_list =
     sequential mri 0x1000 (Append 3) (Append 5) heap_empty_list \<and>
   (\<exists>h'. run_op mri 0x1000 (Append 3) heap_empty_list = Some (Inr (0x1000, h')))"
proof -
  have i: "is_insert (Append 3)" by simp
  have ok: "heap_ok heap_empty_list" by (simp add: heap_ok_def heap_empty_list_def)
  from insert_chaining [OF i, of mri "0x1000" "Append 5" heap_empty_list "[]"]
  show ?thesis using i malloc_ok_mri ok list_at_empty by simp
qed

section \<open>Round trip\<close>

text \<open>
  C9. On a well-formed list, empty or not, \<open>prepend\<close> of \<open>v\<close> followed by \<open>shift\<close>
  returns \<open>v\<close> and leaves exactly the store there was before the \<open>prepend\<close>.
\<close>

theorem prepend_shift_roundtrip:
  assumes "malloc_ok H" "heap_ok h" "list_at h self xs"
  shows "\<exists>h1. rb_linked_list_prepend H self v h = Inr (self, h1) \<and>
              rb_linked_list_shift H self h1 = Inr (v, h)"
proof -
  from assms(3) obtain ob l where s: "objects h self = Some ob" "lists h (data ob) = Some l"
    "chain (nodes h) (head l) xs" by (rule list_atE)
  from assms(2) have fin: "finite (dom (nodes h))" by (simp add: heap_ok_def)
  from assms(1) fin obtain new where new: "new \<notin> dom (nodes h)"
    "new_c_node_value H v h =
       Inr (new, h\<lparr>nodes := (nodes h)(new \<mapsto> \<lparr>node_next = None, node_value = v\<rparr>)\<rparr>)"
    by (rule new_c_node_value_ok)
  let ?k = "\<lparr>node_next = head l, node_value = v\<rparr>"
  let ?h1 = "h\<lparr>nodes := (nodes h)(new \<mapsto> ?k), lists := (lists h)(data ob \<mapsto> l\<lparr>head := Some new\<rparr>)\<rparr>"
  have p: "rb_linked_list_prepend H self v h = Inr (self, ?h1)"
    using s new(2) by (simp add: rb_linked_list_prepend_def get_struct_def)
  from new(1) have "nodes h new = None" by auto
  then have n: "(nodes h)(new := None) = nodes h" by (simp add: fun_upd_idem)
  from s(2) have l: "(lists h)(data ob \<mapsto> l) = lists h" by (simp add: map_upd_triv)
  have "rb_linked_list_shift H self ?h1 = Inr (v, h)"
    using s by (simp add: rb_linked_list_shift_def get_struct_def n l)
  with p show ?thesis by blast
qed

text \<open>On \<open>mri\<close>, the list holding the one value \<open>3\<close>.\<close>

theorem prepend_shift_roundtrip_witness:
  "malloc_ok mri \<and> heap_ok (heap_one_node 3) \<and> list_at (heap_one_node 3) 0x1000 [(0, 3)] \<and>
   (\<exists>h1. rb_linked_list_prepend mri 0x1000 5 (heap_one_node 3) = Inr (0x1000, h1) \<and>
          rb_linked_list_shift mri 0x1000 h1 = Inr (5, heap_one_node 3))"
proof -
  have ok: "heap_ok (heap_one_node 3)" by (simp add: heap_ok_def heap_one_node_def)
  from prepend_shift_roundtrip [OF malloc_ok_mri ok list_at_one, of 5]
  show ?thesis using malloc_ok_mri ok list_at_one by simp
qed

section \<open>The chain after any run\<close>

text \<open>
  C8. After \<open>allocate\<close> and any finite run \<open>ops\<close> of \<open>append\<close>, \<open>prepend\<close> and \<open>shift\<close> on
  the list (the run returns), \<^verbatim>\<open>head\<close> starts a chain that ends at \<^verbatim>\<open>NULL\<close> and visits
  no node twice; its values are the values logically stored, so the number of nodes
  reachable from \<^verbatim>\<open>head\<close> is the number of values inserted and not yet shifted out;
  and the traversal of \<open>linked_list_mark\<close> from \<^verbatim>\<open>head\<close> terminates.
\<close>

theorem acyclic_and_counted:
  assumes "malloc_ok H" "heap_ok h0"
  shows "\<exists>self h1 rs h2 ob l xs.
           rb_linked_list_allocate H k h0 = Inr (self, h1) \<and>
           run_ops H self ops h1 = Some (Inr (rs, h2)) \<and>
           objects h2 self = Some ob \<and> lists h2 (data ob) = Some l \<and>
           chain (nodes h2) (head l) xs \<and> distinct (map fst xs) \<and>
           map snd xs = stored ops \<and>
           card {a. reach (nodes h2) (head l) a} = length (stored ops) \<and>
           linked_list_mark h2 (data ob) = Some (Inr (filter (\<lambda>v. v \<noteq> 0) (stored ops)))"
proof -
  from allocate_ok [OF assms, of k] obtain self h1 where
    a: "rb_linked_list_allocate H k h0 = Inr (self, h1)" "heap_ok h1" "list_at h1 self []"
    by blast
  from run_ops_ok [OF assms(1) a(2,3), of ops] obtain h2 xs where
    r: "run_ops H self ops h1 = Some (Inr (returned_all H self [] ops, h2))"
    "list_at h2 self xs" "map snd xs = stored ops"
    by (auto simp: stored_def)
  from r(2) obtain ob l where s: "objects h2 self = Some ob" "lists h2 (data ob) = Some l"
    "chain (nodes h2) (head l) xs" by (rule list_atE)
  from s(3) have d: "distinct (map fst xs)" by (rule chain_distinct)
  from s(3) have "card {a. reach (nodes h2) (head l) a} = length xs" by (rule card_reach)
  with r(3) have c: "card {a. reach (nodes h2) (head l) a} = length (stored ops)"
    by (metis length_map)
  from s(2,3) have "linked_list_mark h2 (data ob) =
      Some (Inr (filter (\<lambda>v. v \<noteq> 0) (map snd xs)))"
    by (simp add: linked_list_mark_def mark_loop_chain)
  with r(3) have m: "linked_list_mark h2 (data ob) = Some (Inr (filter (\<lambda>v. v \<noteq> 0) (stored ops)))"
    by simp
  from a(1) r(1,3) s d c m show ?thesis by blast
qed

text \<open>On \<open>mri\<close> from the empty store: an append, a prepend and a shift leave one value.\<close>

theorem acyclic_and_counted_witness:
  "malloc_ok mri \<and> heap_ok empty_heap \<and>
   rb_linked_list_allocate mri 0 empty_heap = Inr (0x1000, heap_empty_list) \<and>
   (\<exists>rs h2 ob l xs.
      run_ops mri 0x1000 [Append 3, Prepend 5, Shift] heap_empty_list = Some (Inr (rs, h2)) \<and>
      objects h2 0x1000 = Some ob \<and> lists h2 (data ob) = Some l \<and>
      chain (nodes h2) (head l) xs \<and> distinct (map fst xs) \<and>
      map snd xs = [3] \<and>
      card {a. reach (nodes h2) (head l) a} = 1 \<and>
      linked_list_mark h2 (data ob) = Some (Inr [3]))"
proof -
  have s: "stored [Append 3, Prepend 5, Shift] = [3]" by (simp add: stored_def)
  from acyclic_and_counted [OF malloc_ok_mri heap_ok_empty, of 0 "[Append 3, Prepend 5, Shift]"]
  show ?thesis unfolding s allocate_mri using malloc_ok_mri heap_ok_empty by simp
qed

end
